theory Spec2Isabelle
  imports Complex_Main
begin

section \<open>Data model\<close>

text \<open>
  The two functions of \<^verbatim>\<open>trappy/utils.py\<close> work on pandas objects: a Series or DataFrame
  is an index (an array of timestamps) together with the values of its rows.

  Timestamps are Python floats; they are modelled as exact rationals, so rounding is not
  part of the model. The arrays that back an index live in a store (a list of arrays, an
  address being a position in it), because \<^verbatim>\<open>handle_duplicate_index\<close> writes into such an array
  through a view. A frame is a value that names the array of its index and carries its
  values apart from the store, as the values of a series are that share no memory with its
  index; a series whose values are in the store too is treated in a section of its own.
\<close>

type_synonym time = rat
type_synonym addr = nat
type_synonym heap = "time list list"

datatype error = IndexError | ValueError

record 'v frame =
  index_arr :: addr
  vals :: "'v list"

definition rows :: "heap \<Rightarrow> 'v frame \<Rightarrow> (time \<times> 'v) list" where
  "rows h df = zip (h ! index_arr df) (vals df)"

definition wf_frame :: "heap \<Rightarrow> 'v frame \<Rightarrow> bool" where
  "wf_frame h df = (index_arr df < length h \<and> length (h ! index_arr df) = length (vals df))"

section \<open>Array and index primitives\<close>

text \<open>
  Python subscripts: a negative subscript counts from the end, a subscript outside the
  array raises \<^verbatim>\<open>IndexError\<close>.
\<close>

definition py_index :: "nat \<Rightarrow> int \<Rightarrow> nat option" where
  "py_index n i =
     (if 0 \<le> i \<and> i < int n then Some (nat i)
      else if - int n \<le> i \<and> i < 0 then Some (nat (int n + i))
      else None)"

definition getitem :: "time list \<Rightarrow> int \<Rightarrow> error + time" where
  "getitem arr i = (case py_index (length arr) i of None \<Rightarrow> Inl IndexError | Some j \<Rightarrow> Inr (arr ! j))"

text \<open>\<^verbatim>\<open>arr[i] += delta\<close> on the array stored at address \<open>a\<close>.\<close>

definition iadd_item :: "heap \<Rightarrow> addr \<Rightarrow> int \<Rightarrow> time \<Rightarrow> error + heap" where
  "iadd_item h a i delta =
     (case py_index (length (h ! a)) i of
        None \<Rightarrow> Inl IndexError
      | Some j \<Rightarrow> Inr (h[a := (h ! a)[j := (h ! a) ! j + delta]]))"

text \<open>
  \<^verbatim>\<open>Index.get_duplicates()\<close>: the labels that occur more than once, each listed once, in
  ascending order.
\<close>

definition get_duplicates :: "time list \<Rightarrow> time list" where
  "get_duplicates arr = sort (remdups (filter (\<lambda>k. 1 < count_list arr k) arr))"

text \<open>
  \<^verbatim>\<open>Index.searchsorted(key, side)\<close> is numpy's binary search for one key. It is written out
  as the loop it is, because the function may run it on an array that is no longer sorted.
  \<open>cmp\<close> is \<open><\<close> for side "left" and \<open>\<le>\<close> for side "right".
\<close>

datatype side = SideLeft | SideRight

function binsearch :: "(time \<Rightarrow> time \<Rightarrow> bool) \<Rightarrow> time list \<Rightarrow> time \<Rightarrow> nat \<Rightarrow> nat \<Rightarrow> nat" where
  "binsearch cmp arr key min_idx max_idx =
     (if min_idx < max_idx then
        (let mid_idx = min_idx + (max_idx - min_idx) div 2 in
         if cmp (arr ! mid_idx) key then binsearch cmp arr key (mid_idx + 1) max_idx
         else binsearch cmp arr key min_idx mid_idx)
      else min_idx)"
  by pat_completeness auto
termination
  by (relation "measure (\<lambda>(cmp, arr, key, min_idx, max_idx). max_idx - min_idx)") auto

declare binsearch.simps [simp del]

definition searchsorted :: "time list \<Rightarrow> time \<Rightarrow> side \<Rightarrow> nat" where
  "searchsorted arr key sd =
     binsearch (case sd of SideLeft \<Rightarrow> (<) | SideRight \<Rightarrow> (\<le>)) arr key 0 (length arr)"

section \<open>handle\_duplicate\_index\<close>

text \<open>
  The \<^verbatim>\<open>while\<close> loop of lines 101 to 104: it adds the current \<open>delta\<close> to one entry of
  \<open>new_index\<close>, doubles \<open>delta\<close> and moves on.
\<close>

function add_deltas :: "heap \<Rightarrow> addr \<Rightarrow> int \<Rightarrow> int \<Rightarrow> time \<Rightarrow> error + heap" where
  "add_deltas h new_index dup_index_left dup_index_right delta =
     (if dup_index_left \<le> dup_index_right then
        (case iadd_item h new_index dup_index_left delta of
           Inl e \<Rightarrow> Inl e
         | Inr h' \<Rightarrow> add_deltas h' new_index (dup_index_left + 1) dup_index_right (delta + delta))
      else Inr h)"
  by pat_completeness auto
termination
  by (relation "measure (\<lambda>(h, new_index, l, r, delta). nat (r + 1 - l))") auto

declare add_deltas.simps [simp del]

text \<open>
  The body of the \<^verbatim>\<open>for\<close> loop (lines 81 to 104) for one duplicated label. \<open>index\<close> is read
  and \<open>new_index\<close> is written. The \<^verbatim>\<open>try\<close> catches the \<^verbatim>\<open>IndexError\<close> of the subscript only.
  The operands of the division are numpy scalars: when \<open>num_dups\<close> is zero numpy yields an
  infinity or a NaN and raises nothing, and the loop that follows does not run, so that
  \<open>delta\<close> is never read; HOL's \<open>x / 0 = 0\<close> stands for that unread value.
\<close>

definition adjust_dup :: "heap \<Rightarrow> addr \<Rightarrow> addr \<Rightarrow> time \<Rightarrow> time \<Rightarrow> error + heap" where
  "adjust_dup h index new_index max_delta dup =
     (let dup_index_left = int (searchsorted (h ! index) dup SideLeft);
          dup_index_right = int (searchsorted (h ! index) dup SideRight) - 1;
          num_dups = dup_index_right - dup_index_left + 1;
          delta = (case getitem (h ! index) (dup_index_right + 1) of
                     Inr nxt \<Rightarrow> (nxt - dup) / of_int num_dups
                   | Inl e \<Rightarrow> max_delta);
          delta = (if delta > max_delta then max_delta else delta)
      in add_deltas h new_index (dup_index_left + 1) dup_index_right delta)"

fun for_dups :: "heap \<Rightarrow> addr \<Rightarrow> addr \<Rightarrow> time \<Rightarrow> time list \<Rightarrow> error + heap" where
  "for_dups h index new_index max_delta [] = Inr h"
| "for_dups h index new_index max_delta (dup # dups) =
     (case adjust_dup h index new_index max_delta dup of
        Inl e \<Rightarrow> Inl e
      | Inr h' \<Rightarrow> for_dups h' index new_index max_delta dups)"

text \<open>
  \<^verbatim>\<open>data.reindex(target)\<close>. When the labels of \<open>data\<close> equal the target labels the rows are
  kept as they are under the target index. Otherwise every target label is looked up among
  the labels of \<open>data\<close> (a missing label gives NaN, here \<open>None\<close>), which pandas refuses with
  \<^verbatim>\<open>ValueError\<close> ("cannot reindex from a duplicate axis") when the labels of \<open>data\<close> are not
  unique. The index of the result wraps the target array without copying it.
\<close>

definition reindex :: "heap \<Rightarrow> 'v option frame \<Rightarrow> addr \<Rightarrow> error + heap \<times> 'v option frame" where
  "reindex h data target =
     (let labels = h ! index_arr data; new_labels = h ! target in
      if labels = new_labels then Inr (h, \<lparr>index_arr = target, vals = vals data\<rparr>)
      else if distinct labels \<or> new_labels = [] then
        Inr (h, \<lparr>index_arr = target,
                 vals = map (\<lambda>t. case map_of (zip labels (vals data)) t of
                                    None \<Rightarrow> None | Some v \<Rightarrow> v) new_labels\<rparr>)
      else Inl ValueError)"

text \<open>
  Lines 75 to 106. \<^verbatim>\<open>index.values\<close> is a view of the array that backs the index, not a copy:
  \<open>new_index\<close> is the address of that same array, so the writes of the loop are seen by the
  later reads through \<open>index\<close>, by \<^verbatim>\<open>reindex\<close> and by the caller. The function rests on it:
  \<^verbatim>\<open>test_handle_duplicate_index\<close> expects the values \<open>0\<close> to \<open>4\<close> under the index
  \<open>[0, 1, 1.001, 6, 7]\<close>, which \<^verbatim>\<open>reindex\<close> gives only when the index of \<open>data\<close> already holds
  these labels; looked up in the index \<open>[0, 1, 1, 6, 7]\<close> they would be refused as a
  reindexing from a duplicate axis.
\<close>

definition handle_duplicate_index ::
    "heap \<Rightarrow> 'v option frame \<Rightarrow> time \<Rightarrow> error + heap \<times> 'v option frame" where
  "handle_duplicate_index h data max_delta =
     (let index = index_arr data;
          new_index = index;
          dups = get_duplicates (h ! index)
      in case for_dups h index new_index max_delta dups of
           Inl e \<Rightarrow> Inl e
         | Inr h' \<Rightarrow> reindex h' data new_index)"

section \<open>squash\_into\_window\<close>

text \<open>
  The pandas operations of lines 167 to 187. Each builds a new object, with a newly
  allocated index array. \<open>mask_rows\<close> is selection by a boolean mask over the index
  (\<^verbatim>\<open>df[mask]\<close>), \<open>iloc_last\<close> is \<^verbatim>\<open>.iloc[-1:]\<close>, \<open>empty_frame\<close> is \<^verbatim>\<open>.empty\<close>, \<open>set_index\<close> is the
  assignment \<^verbatim>\<open>df.index = labels\<close> (a \<^verbatim>\<open>ValueError\<close> when the number of labels is not the
  number of rows) and \<open>pd_concat\<close> is \<^verbatim>\<open>pd.concat\<close>.
\<close>

definition mask_rows :: "heap \<Rightarrow> 'v frame \<Rightarrow> (time \<Rightarrow> bool) \<Rightarrow> heap \<times> 'v frame" where
  "mask_rows h df keep =
     (let sel = filter (\<lambda>(t, v). keep t) (rows h df)
      in (h @ [map fst sel], \<lparr>index_arr = length h, vals = map snd sel\<rparr>))"

definition iloc_last :: "heap \<Rightarrow> 'v frame \<Rightarrow> heap \<times> 'v frame" where
  "iloc_last h df =
     (let sel = drop (length (rows h df) - 1) (rows h df)
      in (h @ [map fst sel], \<lparr>index_arr = length h, vals = map snd sel\<rparr>))"

definition empty_frame :: "heap \<Rightarrow> 'v frame \<Rightarrow> bool" where
  "empty_frame h df = (rows h df = [])"

definition set_index :: "heap \<Rightarrow> 'v frame \<Rightarrow> time list \<Rightarrow> error + heap \<times> 'v frame" where
  "set_index h df labels =
     (if length labels = length (vals df) then Inr (h @ [labels], df\<lparr>index_arr := length h\<rparr>)
      else Inl ValueError)"

definition pd_concat :: "heap \<Rightarrow> 'v frame list \<Rightarrow> heap \<times> 'v frame" where
  "pd_concat h dfs =
     (let sel = concat (map (rows h) dfs)
      in (h @ [map fst sel], \<lparr>index_arr = length h, vals = map snd sel\<rparr>))"

definition squash_into_window ::
    "heap \<Rightarrow> 'v frame \<Rightarrow> time \<times> time \<Rightarrow> error + heap \<times> 'v frame" where
  "squash_into_window h df window =
     (case window of (start_time, end_time) \<Rightarrow>
        let (h, window_df) = mask_rows h df (\<lambda>t. start_time \<le> t \<and> t < end_time);
            (h, prior_df) = mask_rows h df (\<lambda>t. t < start_time);
            (h, first_event_df) = iloc_last h prior_df
        in case (if \<not> empty_frame h first_event_df
                 then set_index h first_event_df [start_time]
                 else Inr (h, first_event_df)) of
             Inl e \<Rightarrow> Inl e
           | Inr (h, first_event_df) \<Rightarrow>
               let (h, df) = pd_concat h [first_event_df, window_df];
                   (h, upto_df) = mask_rows h df (\<lambda>t. t \<le> end_time);
                   (h, last_event_df) = iloc_last h upto_df
               in case (if \<not> empty_frame h last_event_df
                        then set_index h last_event_df [end_time]
                        else Inr (h, last_event_df)) of
                    Inl e \<Rightarrow> Inl e
                  | Inr (h, last_event_df) \<Rightarrow> Inr (pd_concat h [df, last_event_df]))"

section \<open>handle\_duplicate\_index in rounded arithmetic, over values in the store\<close>

text \<open>
  The definitions of the section on \<^verbatim>\<open>handle_duplicate_index\<close> above add, subtract and divide
  exactly, and their frames hold the values apart from the store. The source computes in
  binary64, where each operation rounds its result (adding \<open>1e-6\<close> to the timestamp \<open>2e10\<close>
  leaves it as it was), and the values of a series of floats may be the very array of its
  index: \<^verbatim>\<open>pandas.Series(t, index=t)\<close> copies neither argument. The statements that depend on
  the results of the arithmetic, or on the values being apart, are made about the
  following definitions: lines 75 to 106 once more, with the three operations of the
  source as parameters and with the values in the store.

  \<open>fl_add\<close>, \<open>fl_sub\<close> and \<open>fl_div\<close> stand for the binary64 \<^verbatim>\<open>+\<close> (of \<^verbatim>\<open>+=\<close>), \<^verbatim>\<open>-\<close> and \<^verbatim>\<open>/\<close>.
  Nothing is assumed of them, so that what is proved for every \<open>arith\<close> holds of the
  operations of the machine on finite values, however they round. Comparisons are exact in
  binary64 and stay as they are. \<open>exact_arith\<close> is the arithmetic of the definitions above;
  \<open>whole_arith\<close> rounds every result to a whole number, a coarse arithmetic in which
  absorption shows on small numbers.
\<close>

record arith =
  fl_add :: "time \<Rightarrow> time \<Rightarrow> time"
  fl_sub :: "time \<Rightarrow> time \<Rightarrow> time"
  fl_div :: "time \<Rightarrow> time \<Rightarrow> time"

definition exact_arith :: arith where
  "exact_arith = \<lparr>fl_add = (+), fl_sub = (-), fl_div = (/)\<rparr>"

definition whole_arith :: arith where
  "whole_arith = \<lparr>fl_add = (\<lambda>x y. of_int (round (x + y))),
                   fl_sub = (\<lambda>x y. of_int (round (x - y))),
                   fl_div = (\<lambda>x y. of_int (round (x / y)))\<rparr>"

text \<open>
  A series of floats: the array of its index and the array of its values, both in the
  store, the same array or two. \<open>series_frame\<close> reads the series off the store.
\<close>

record series =
  s_index :: addr
  s_values :: addr

definition series_frame :: "heap \<Rightarrow> series \<Rightarrow> time option frame" where
  "series_frame h data = \<lparr>index_arr = s_index data, vals = map Some (h ! s_values data)\<rparr>"

text \<open>
  Lines 99 to 104, 81 to 104 and 80 to 104, as \<open>add_deltas\<close>, \<open>adjust_dup\<close> and \<open>for_dups\<close> are,
  with \<open>fl_add\<close> for both \<^verbatim>\<open>+=\<close>, and \<open>fl_sub\<close> and \<open>fl_div\<close> in the \<open>delta\<close> of line 89 (there
  \<open>num_dups\<close>, an integer, is converted exactly).
\<close>

definition iadd_item_fl :: "arith \<Rightarrow> heap \<Rightarrow> addr \<Rightarrow> int \<Rightarrow> time \<Rightarrow> error + heap" where
  "iadd_item_fl ar h a i delta =
     (case py_index (length (h ! a)) i of
        None \<Rightarrow> Inl IndexError
      | Some j \<Rightarrow> Inr (h[a := (h ! a)[j := fl_add ar ((h ! a) ! j) delta]]))"

function add_deltas_fl ::
    "arith \<Rightarrow> heap \<Rightarrow> addr \<Rightarrow> int \<Rightarrow> int \<Rightarrow> time \<Rightarrow> error + heap" where
  "add_deltas_fl ar h new_index dup_index_left dup_index_right delta =
     (if dup_index_left \<le> dup_index_right then
        (case iadd_item_fl ar h new_index dup_index_left delta of
           Inl e \<Rightarrow> Inl e
         | Inr h' \<Rightarrow>
             add_deltas_fl ar h' new_index (dup_index_left + 1) dup_index_right
               (fl_add ar delta delta))
      else Inr h)"
  by pat_completeness auto
termination
  by (relation "measure (\<lambda>(ar, h, new_index, l, r, delta). nat (r + 1 - l))") auto

declare add_deltas_fl.simps [simp del]

definition adjust_dup_fl ::
    "arith \<Rightarrow> heap \<Rightarrow> addr \<Rightarrow> addr \<Rightarrow> time \<Rightarrow> time \<Rightarrow> error + heap" where
  "adjust_dup_fl ar h index new_index max_delta dup =
     (let dup_index_left = int (searchsorted (h ! index) dup SideLeft);
          dup_index_right = int (searchsorted (h ! index) dup SideRight) - 1;
          num_dups = dup_index_right - dup_index_left + 1;
          delta = (case getitem (h ! index) (dup_index_right + 1) of
                     Inr nxt \<Rightarrow> fl_div ar (fl_sub ar nxt dup) (of_int num_dups)
                   | Inl e \<Rightarrow> max_delta);
          delta = (if delta > max_delta then max_delta else delta)
      in add_deltas_fl ar h new_index (dup_index_left + 1) dup_index_right delta)"

fun for_dups_fl ::
    "arith \<Rightarrow> heap \<Rightarrow> addr \<Rightarrow> addr \<Rightarrow> time \<Rightarrow> time list \<Rightarrow> error + heap" where
  "for_dups_fl ar h index new_index max_delta [] = Inr h"
| "for_dups_fl ar h index new_index max_delta (dup # dups) =
     (case adjust_dup_fl ar h index new_index max_delta dup of
        Inl e \<Rightarrow> Inl e
      | Inr h' \<Rightarrow> for_dups_fl ar h' index new_index max_delta dups)"

text \<open>
  Lines 75 to 106. \<^verbatim>\<open>reindex\<close> runs after the loop and copies the values that the series has
  then, so the values are read off the store that the loop leaves behind.
\<close>

definition handle_duplicate_index_fl ::
    "arith \<Rightarrow> heap \<Rightarrow> series \<Rightarrow> time \<Rightarrow> error + heap \<times> time option frame" where
  "handle_duplicate_index_fl ar h data max_delta =
     (let index = s_index data;
          new_index = index;
          dups = get_duplicates (h ! index)
      in case for_dups_fl ar h index new_index max_delta dups of
           Inl e \<Rightarrow> Inl e
         | Inr h' \<Rightarrow> reindex h' (series_frame h' data) new_index)"

section \<open>Auxiliary notions for the proofs\<close>

text \<open>
  \<open>boundary_row t rs\<close> is the last row of \<open>rs\<close> relabelled \<open>t\<close>, when there is one: what
  \<^verbatim>\<open>.iloc[-1:]\<close> followed by the guarded assignment to \<^verbatim>\<open>.index\<close> builds. \<open>heap_ext h h'\<close>
  says that the store \<open>h'\<close> is \<open>h\<close> with further arrays allocated behind it, every array of
  \<open>h\<close> being as it was.
\<close>

definition boundary_row :: "time \<Rightarrow> (time \<times> 'v) list \<Rightarrow> (time \<times> 'v) list" where
  "boundary_row t rs = (if rs = [] then [] else [(t, snd (last rs))])"

definition heap_ext :: "heap \<Rightarrow> heap \<Rightarrow> bool" where
  "heap_ext h h' = (take (length h) h' = h)"

definition fresh_frame :: "heap \<Rightarrow> heap \<Rightarrow> 'v frame \<Rightarrow> (time \<times> 'v) list \<Rightarrow> bool" where
  "fresh_frame h h' f rs = (heap_ext h h' \<and> wf_frame h' f \<and> rows h' f = rs)"

text \<open>
  The timestamps that claim C4, as amended, describes, in the arithmetic \<open>ar\<close>.
  \<open>group_delta\<close> is the claim's \<open>delta\<close> of the group at timestamp \<open>d\<close>: \<open>max_delta\<close> when the
  group ends the series, and otherwise the distance to the ceiling (the first timestamp
  after the group) divided by the size of the group, clamped to \<open>max_delta\<close>. \<open>increment\<close> is
  the \<open>k\<close>-th increment, \<open>delta\<close> doubled \<open>k - 1\<close> times (\<open>2 ^ (k - 1) * delta\<close> in exact
  arithmetic). \<open>adjusted ar arr max_delta i\<close> is the timestamp claimed for position \<open>i\<close>: the
  \<open>k\<close>-th entry after the first one of its group (\<open>k\<close> is the position minus the number of
  smaller timestamps) is the sum of \<open>d\<close> and the \<open>k\<close>-th increment, the first entry of a
  group and every single entry stay. \<open>fits\<close> says that every timestamp, adjusted so, stays
  strictly below every original timestamp that was above it. \<open>within_max_delta\<close> says that
  no increment is beyond \<open>max_delta\<close>. \<open>increasing\<close> says that the adjusted timestamps are
  strictly increasing; for a sorted series it implies \<open>fits\<close>. \<open>partly_adjusted\<close> is the
  array when the groups at the timestamps \<open>seen\<close> have been adjusted; it is the invariant of
  the \<^verbatim>\<open>for\<close> loop.
\<close>

definition group_delta :: "arith \<Rightarrow> time list \<Rightarrow> time \<Rightarrow> time \<Rightarrow> time" where
  "group_delta ar arr max_delta d =
     (let n = count_list arr d; later = filter (\<lambda>t. d < t) arr
      in if later = [] then max_delta
         else (let q = fl_div ar (fl_sub ar (hd later) d) (of_nat n)
               in if q > max_delta then max_delta else q))"

definition increment :: "arith \<Rightarrow> time \<Rightarrow> nat \<Rightarrow> time" where
  "increment ar delta k = ((\<lambda>x. fl_add ar x x) ^^ (k - 1)) delta"

definition adjusted :: "arith \<Rightarrow> time list \<Rightarrow> time \<Rightarrow> nat \<Rightarrow> time" where
  "adjusted ar arr max_delta i =
     (let d = arr ! i; k = i - length (filter (\<lambda>t. t < d) arr)
      in if k = 0 then d else fl_add ar d (increment ar (group_delta ar arr max_delta d) k))"

definition fits :: "arith \<Rightarrow> time list \<Rightarrow> time \<Rightarrow> bool" where
  "fits ar arr max_delta =
     (\<forall>i \<in> set [0..<length arr]. \<forall>c \<in> set arr.
        arr ! i < c \<longrightarrow> adjusted ar arr max_delta i < c)"

definition within_max_delta :: "arith \<Rightarrow> time list \<Rightarrow> time \<Rightarrow> bool" where
  "within_max_delta ar arr max_delta =
     (\<forall>i \<in> set [0..<length arr].
        (let d = arr ! i; k = i - length (filter (\<lambda>t. t < d) arr)
         in if k = 0 then True
            else \<bar>increment ar (group_delta ar arr max_delta d) k\<bar> \<le> max_delta))"

definition increasing :: "arith \<Rightarrow> time list \<Rightarrow> time \<Rightarrow> bool" where
  "increasing ar arr max_delta = sorted_wrt (<) (map (adjusted ar arr max_delta) [0..<length arr])"

definition partly_adjusted :: "arith \<Rightarrow> time list \<Rightarrow> time \<Rightarrow> time list \<Rightarrow> time list" where
  "partly_adjusted ar arr max_delta seen =
     map (\<lambda>i. if arr ! i \<in> set seen then adjusted ar arr max_delta i else arr ! i)
       [0..<length arr]"

section \<open>Properties of handle\_duplicate\_index\<close>

lemma binsearch_bounds:
  "min_idx \<le> max_idx \<Longrightarrow>
   min_idx \<le> binsearch cmp arr key min_idx max_idx \<and> binsearch cmp arr key min_idx max_idx \<le> max_idx"
proof (induction cmp arr key min_idx max_idx rule: binsearch.induct)
  case (1 cmp arr key min_idx max_idx)
  show ?case
  proof (cases "min_idx < max_idx")
    case False
    then show ?thesis using "1.prems" by (simp add: binsearch.simps)
  next
    case True
    define mid where "mid = min_idx + (max_idx - min_idx) div 2"
    have mid: "min_idx \<le> mid" "mid < max_idx" using True by (auto simp: mid_def)
    show ?thesis
    proof (cases "cmp (arr ! mid) key")
      case c: True
      have "mid + 1 \<le> binsearch cmp arr key (mid + 1) max_idx \<and> binsearch cmp arr key (mid + 1) max_idx \<le> max_idx"
        using "1.IH"(1)[OF True mid_def c] mid by simp
      then show ?thesis using True c mid
        by (subst (1 2) binsearch.simps) (simp add: mid_def Let_def)
    next
      case c: False
      have "min_idx \<le> binsearch cmp arr key min_idx mid \<and> binsearch cmp arr key min_idx mid \<le> mid"
        using "1.IH"(2)[OF True mid_def c] mid by simp
      then show ?thesis using True c mid
        by (subst (1 2) binsearch.simps) (simp add: mid_def Let_def)
    qed
  qed
qed

lemma searchsorted_le: "searchsorted arr key sd \<le> length arr"
  using binsearch_bounds[of 0 "length arr"] by (simp add: searchsorted_def)

lemma add_deltas_effect:
  "a < length h \<Longrightarrow> 0 \<le> l \<Longrightarrow> r < int (length (h ! a)) \<Longrightarrow>
   \<exists>buf. add_deltas h a l r delta = Inr (h[a := buf]) \<and> length buf = length (h ! a) \<and>
     (\<forall>i < length buf. buf ! i =
        (if l \<le> int i \<and> int i \<le> r then h ! a ! i + 2 ^ nat (int i - l) * delta else h ! a ! i))"
proof (induction h a l r delta rule: add_deltas.induct)
  case (1 h a l r delta)
  show ?case
  proof (cases "l \<le> r")
    case False
    then have "add_deltas h a l r delta = Inr (h[a := h ! a])"
      by (simp add: add_deltas.simps)
    then show ?thesis using False by (intro exI[of _ "h ! a"]) simp
  next
    case True
    define h1 where "h1 = h[a := (h ! a)[nat l := h ! a ! nat l + delta]]"
    have pi: "py_index (length (h ! a)) l = Some (nat l)"
      using True "1.prems" by (simp add: py_index_def)
    have ia: "iadd_item h a l delta = Inr h1"
      by (simp add: iadd_item_def pi h1_def)
    have h1a: "h1 ! a = (h ! a)[nat l := h ! a ! nat l + delta]" "length h1 = length h"
      using "1.prems"(1) by (simp_all add: h1_def)
    from "1.IH"[OF True ia] "1.prems" h1a
    obtain buf where buf: "add_deltas h1 a (l + 1) r (delta + delta) = Inr (h1[a := buf])"
      "length buf = length (h ! a)"
      "\<forall>i < length buf. buf ! i =
        (if l + 1 \<le> int i \<and> int i \<le> r then h1 ! a ! i + 2 ^ nat (int i - (l + 1)) * (delta + delta) else h1 ! a ! i)"
      by auto
    have step: "add_deltas h a l r delta = Inr (h[a := buf])"
      using True ia buf(1) by (subst add_deltas.simps) (simp add: h1_def)
    have "buf ! i = (if l \<le> int i \<and> int i \<le> r then h ! a ! i + 2 ^ nat (int i - l) * delta else h ! a ! i)"
      if "i < length buf" for i
    proof (cases "int i = l")
      case True
      then have "i = nat l" by simp
      then show ?thesis using buf(3) that True \<open>l \<le> r\<close> buf(2) h1a by simp
    next
      case False
      then have ne: "i \<noteq> nat l" using "1.prems"(2) by auto
      show ?thesis
      proof (cases "l + 1 \<le> int i \<and> int i \<le> r")
        case True
        then have "nat (int i - l) = Suc (nat (int i - (l + 1)))" by linarith
        then show ?thesis using buf(3) that True ne h1a by simp
      next
        case False
        then show ?thesis using buf(3) that ne h1a \<open>int i \<noteq> l\<close> by auto
      qed
    qed
    then show ?thesis using step buf(2) by blast
  qed
qed


lemma adjust_dup_total:
  assumes "a < length h"
  shows "\<exists>buf. adjust_dup h a a max_delta dup = Inr (h[a := buf]) \<and> length buf = length (h ! a)"
proof -
  have "int (searchsorted (h ! a) dup SideRight) - 1 < int (length (h ! a))"
    using searchsorted_le[of "h ! a" dup SideRight] by simp
  moreover have "0 \<le> int (searchsorted (h ! a) dup SideLeft) + 1" by simp
  ultimately show ?thesis
    unfolding adjust_dup_def Let_def
    using add_deltas_effect[OF assms, of "int (searchsorted (h ! a) dup SideLeft) + 1"
        "int (searchsorted (h ! a) dup SideRight) - 1"]
    by blast
qed

lemma for_dups_total:
  "a < length h \<Longrightarrow>
   \<exists>buf. for_dups h a a max_delta dups = Inr (h[a := buf]) \<and> length buf = length (h ! a)"
proof (induction dups arbitrary: h)
  case Nil
  show ?case by (intro exI[of _ "h ! a"]) simp
next
  case (Cons dup dups)
  from adjust_dup_total[OF Cons.prems, of max_delta dup]
  obtain b1 where b1: "adjust_dup h a a max_delta dup = Inr (h[a := b1])" "length b1 = length (h ! a)"
    by blast
  have "a < length (h[a := b1])" using Cons.prems by simp
  from Cons.IH[OF this]
  obtain b2 where b2: "for_dups (h[a := b1]) a a max_delta dups = Inr (h[a := b1, a := b2])"
    "length b2 = length (h[a := b1] ! a)"
    by blast
  show ?case using b1 b2 Cons.prems by (intro exI[of _ b2]) simp
qed

lemma handle_duplicate_index_total:
  assumes "index_arr data < length h"
  shows "\<exists>buf. handle_duplicate_index h data max_delta =
            Inr (h[index_arr data := buf], \<lparr>index_arr = index_arr data, vals = vals data\<rparr>) \<and>
          length buf = length (h ! index_arr data)"
proof -
  from for_dups_total[OF assms, of max_delta "get_duplicates (h ! index_arr data)"]
  obtain buf where buf: "for_dups h (index_arr data) (index_arr data) max_delta
        (get_duplicates (h ! index_arr data)) = Inr (h[index_arr data := buf])"
      "length buf = length (h ! index_arr data)"
    by blast
  show ?thesis using buf
    by (intro exI[of _ buf]) (simp add: handle_duplicate_index_def Let_def reindex_def)
qed










lemma add_deltas_fl_effect:
  "a < length h \<Longrightarrow> 0 \<le> l \<Longrightarrow> r < int (length (h ! a)) \<Longrightarrow>
   \<exists>buf. add_deltas_fl ar h a l r delta = Inr (h[a := buf]) \<and> length buf = length (h ! a) \<and>
     (\<forall>i < length buf. buf ! i =
        (if l \<le> int i \<and> int i \<le> r
         then fl_add ar (h ! a ! i) (((\<lambda>x. fl_add ar x x) ^^ nat (int i - l)) delta)
         else h ! a ! i))"
proof (induction ar h a l r delta rule: add_deltas_fl.induct)
  case (1 ar h a l r delta)
  show ?case
  proof (cases "l \<le> r")
    case False
    then have "add_deltas_fl ar h a l r delta = Inr (h[a := h ! a])"
      by (simp add: add_deltas_fl.simps)
    then show ?thesis using False by (intro exI[of _ "h ! a"]) simp
  next
    case True
    define h1 where "h1 = h[a := (h ! a)[nat l := fl_add ar (h ! a ! nat l) delta]]"
    have pi: "py_index (length (h ! a)) l = Some (nat l)"
      using True "1.prems" by (simp add: py_index_def)
    have ia: "iadd_item_fl ar h a l delta = Inr h1"
      by (simp add: iadd_item_fl_def pi h1_def)
    have h1a: "h1 ! a = (h ! a)[nat l := fl_add ar (h ! a ! nat l) delta]" "length h1 = length h"
      using "1.prems"(1) by (simp_all add: h1_def)
    from "1.IH"[OF True ia] "1.prems" h1a
    obtain buf where buf: "add_deltas_fl ar h1 a (l + 1) r (fl_add ar delta delta) = Inr (h1[a := buf])"
      "length buf = length (h ! a)"
      "\<forall>i < length buf. buf ! i =
        (if l + 1 \<le> int i \<and> int i \<le> r
         then fl_add ar (h1 ! a ! i)
                (((\<lambda>x. fl_add ar x x) ^^ nat (int i - (l + 1))) (fl_add ar delta delta))
         else h1 ! a ! i)"
      by auto
    have step: "add_deltas_fl ar h a l r delta = Inr (h[a := buf])"
      using True ia buf(1) by (subst add_deltas_fl.simps) (simp add: h1_def)
    have "buf ! i = (if l \<le> int i \<and> int i \<le> r
         then fl_add ar (h ! a ! i) (((\<lambda>x. fl_add ar x x) ^^ nat (int i - l)) delta)
         else h ! a ! i)"
      if "i < length buf" for i
    proof (cases "int i = l")
      case True
      then have "i = nat l" by simp
      then show ?thesis using buf(3) that True \<open>l \<le> r\<close> buf(2) h1a by simp
    next
      case False
      then have ne: "i \<noteq> nat l" using "1.prems"(2) by auto
      show ?thesis
      proof (cases "l + 1 \<le> int i \<and> int i \<le> r")
        case True
        then have "nat (int i - l) = Suc (nat (int i - (l + 1)))" by linarith
        then have "((\<lambda>x. fl_add ar x x) ^^ nat (int i - l)) delta =
              ((\<lambda>x. fl_add ar x x) ^^ nat (int i - (l + 1))) (fl_add ar delta delta)"
          by (simp only: funpow_Suc_right o_apply)
        then show ?thesis using buf(3) that True ne h1a by simp
      next
        case False
        then show ?thesis using buf(3) that ne h1a \<open>int i \<noteq> l\<close> by auto
      qed
    qed
    then show ?thesis using step buf(2) by blast
  qed
qed

lemma adjust_dup_fl_total:
  assumes "a < length h"
  shows "\<exists>buf. adjust_dup_fl ar h a a max_delta dup = Inr (h[a := buf]) \<and>
           length buf = length (h ! a)"
proof -
  have "int (searchsorted (h ! a) dup SideRight) - 1 < int (length (h ! a))"
    using searchsorted_le[of "h ! a" dup SideRight] by simp
  moreover have "0 \<le> int (searchsorted (h ! a) dup SideLeft) + 1" by simp
  ultimately show ?thesis
    unfolding adjust_dup_fl_def Let_def
    using add_deltas_fl_effect[OF assms, of "int (searchsorted (h ! a) dup SideLeft) + 1"
        "int (searchsorted (h ! a) dup SideRight) - 1"]
    by blast
qed

lemma for_dups_fl_total:
  "a < length h \<Longrightarrow>
   \<exists>buf. for_dups_fl ar h a a max_delta dups = Inr (h[a := buf]) \<and> length buf = length (h ! a)"
proof (induction dups arbitrary: h)
  case Nil
  show ?case by (intro exI[of _ "h ! a"]) simp
next
  case (Cons dup dups)
  from adjust_dup_fl_total[OF Cons.prems, of ar max_delta dup]
  obtain b1 where b1: "adjust_dup_fl ar h a a max_delta dup = Inr (h[a := b1])"
    "length b1 = length (h ! a)"
    by blast
  have "a < length (h[a := b1])" using Cons.prems by simp
  from Cons.IH[OF this]
  obtain b2 where b2: "for_dups_fl ar (h[a := b1]) a a max_delta dups = Inr (h[a := b1, a := b2])"
    "length b2 = length (h[a := b1] ! a)"
    by blast
  show ?case using b1 b2 Cons.prems by (intro exI[of _ b2]) simp
qed

lemma handle_duplicate_index_fl_total:
  assumes "s_index data < length h"
  shows "\<exists>buf. handle_duplicate_index_fl ar h data max_delta =
            Inr (h[s_index data := buf],
                 \<lparr>index_arr = s_index data,
                    vals = map Some (h[s_index data := buf] ! s_values data)\<rparr>) \<and>
          length buf = length (h ! s_index data)"
proof -
  from for_dups_fl_total[OF assms, of ar max_delta "get_duplicates (h ! s_index data)"]
  obtain buf where buf: "for_dups_fl ar h (s_index data) (s_index data) max_delta
        (get_duplicates (h ! s_index data)) = Inr (h[s_index data := buf])"
      "length buf = length (h ! s_index data)"
    by blast
  show ?thesis using buf
    by (intro exI[of _ buf])
      (simp add: handle_duplicate_index_fl_def Let_def reindex_def series_frame_def)
qed



lemma length_partly_adjusted [simp]: "length (partly_adjusted ar a max_delta seen) = length a"
  by (simp add: partly_adjusted_def)










text \<open>
  In exact arithmetic, and for a series whose values are not the array of its index, the
  function of this section is the one of the section above, applied to the frame read off
  the store.
\<close>

lemma exact_arith_simps:
  "fl_add exact_arith = (+)" "fl_sub exact_arith = (-)" "fl_div exact_arith = (/)"
  by (simp_all add: exact_arith_def)

lemma add_deltas_fl_exact: "add_deltas_fl exact_arith h a l r delta = add_deltas h a l r delta"
proof (induction h a l r delta rule: add_deltas.induct)
  case (1 h a l r delta)
  have item: "iadd_item_fl exact_arith h a l delta = iadd_item h a l delta"
    unfolding iadd_item_fl_def iadd_item_def exact_arith_simps ..
  show ?case
  proof (cases "l \<le> r")
    case False
    then show ?thesis by (simp add: add_deltas_fl.simps add_deltas.simps)
  next
    case True
    show ?thesis
    proof (cases "iadd_item h a l delta")
      case (Inl e)
      then show ?thesis using True item
        by (subst add_deltas_fl.simps, subst add_deltas.simps) simp
    next
      case (Inr h1)
      have "add_deltas_fl exact_arith h1 a (l + 1) r (delta + delta) =
            add_deltas h1 a (l + 1) r (delta + delta)"
        using "1.IH"[OF True Inr] .
      then show ?thesis using True item Inr
        by (subst add_deltas_fl.simps, subst add_deltas.simps) (simp add: exact_arith_simps)
    qed
  qed
qed

lemma adjust_dup_fl_exact:
  "adjust_dup_fl exact_arith h index new_index max_delta dup =
   adjust_dup h index new_index max_delta dup"
  unfolding adjust_dup_fl_def adjust_dup_def add_deltas_fl_exact exact_arith_simps ..

lemma for_dups_fl_exact:
  "for_dups_fl exact_arith h index new_index max_delta dups =
   for_dups h index new_index max_delta dups"
  by (induction dups arbitrary: h) (simp_all add: adjust_dup_fl_exact split: sum.splits)

lemma handle_duplicate_index_fl_exact:
  assumes "s_index data < length h" and "s_values data \<noteq> s_index data"
  shows "handle_duplicate_index_fl exact_arith h data max_delta =
         handle_duplicate_index h (series_frame h data) max_delta"
proof -
  from for_dups_total[OF assms(1), of max_delta "get_duplicates (h ! s_index data)"]
  obtain buf where buf: "for_dups h (s_index data) (s_index data) max_delta
        (get_duplicates (h ! s_index data)) = Inr (h[s_index data := buf])"
    by blast
  have "series_frame (h[s_index data := buf]) data = series_frame h data"
    using assms(2) by (simp add: series_frame_def)
  then show ?thesis using buf
    by (simp add: handle_duplicate_index_fl_def handle_duplicate_index_def for_dups_fl_exact
        Let_def series_frame_def)
qed

text \<open>
  In an arithmetic that rounds, an increment can be absorbed: \<open>7 + 1 / 4\<close> is the whole
  number \<open>7\<close>. The entry stays where it was, the duplicate with it, and that is what
  \<open>adjusted\<close> says of it; the adjusted timestamps of such a run fit but are not strictly
  increasing.
\<close>

lemma rounding_absorbs_increment:
  "fits whole_arith [7, 7, 9] (1 / 4) \<and> within_max_delta whole_arith [7, 7, 9] (1 / 4) \<and>
   \<not> increasing whole_arith [7, 7, 9] (1 / 4) \<and>
   group_delta whole_arith [7, 7, 9] (1 / 4) 7 = 1 / 4 \<and>
   fl_add whole_arith 7 (increment whole_arith (1 / 4) 1) = 7 \<and>
   handle_duplicate_index_fl whole_arith [[7, 7, 9], [1, 2, 3]] \<lparr>s_index = 0, s_values = 1\<rparr> (1 / 4)
     = Inr ([[7, 7, 9], [1, 2, 3]], \<lparr>index_arr = 0, vals = [Some 1, Some 2, Some 3]\<rparr>)"
  by code_simp

text \<open>
  Without the fit the loop goes astray, since it searches the array it has already
  written. Here the group at \<open>0\<close> overshoots the \<open>5\<close> that follows it; the binary search for
  the second group then meets the \<open>8\<close>, finds no \<open>5\<close> at all (\<open>num_dups\<close> is zero), and the two
  entries at \<open>5\<close> stay equal.
\<close>

lemma overshoot_hides_later_group:
  "handle_duplicate_index [[0, 0, 0, 0, 0, 5, 5, 6]]
       \<lparr>index_arr = 0, vals = replicate 8 (Some (0 :: nat))\<rparr> 1
     = Inr ([[0, 1, 2, 4, 8, 5, 5, 6]], \<lparr>index_arr = 0, vals = replicate 8 (Some 0)\<rparr>) \<and>
   searchsorted [0, 1, 2, 4, 8, 5, 5, 6] 5 SideLeft = 4 \<and>
   searchsorted [0, 1, 2, 4, 8, 5, 5, 6] 5 SideRight = 4"
  by code_simp

section \<open>Properties of squash\_into\_window\<close>

lemma heap_ext_refl: "heap_ext h h"
  by (simp add: heap_ext_def)

lemma heap_ext_append: "heap_ext h (h @ bs)"
  by (simp add: heap_ext_def)

lemma heap_ext_iff: "heap_ext h h' \<longleftrightarrow> (\<exists>bs. h' = h @ bs)"
  unfolding heap_ext_def by (metis append_eq_conv_conj)

lemma heap_ext_trans: "heap_ext h h1 \<Longrightarrow> heap_ext h1 h2 \<Longrightarrow> heap_ext h h2"
  by (auto simp: heap_ext_iff)

lemma heap_ext_frame:
  "heap_ext h h' \<Longrightarrow> wf_frame h f \<Longrightarrow> wf_frame h' f \<and> rows h' f = rows h f"
  by (auto simp: heap_ext_iff wf_frame_def rows_def nth_append)

lemma drop_last_row: "drop (length rs - 1) rs = (if rs = [] then [] else [last rs])"
  by (cases rs rule: rev_cases) simp_all

lemma alloc_fresh:
  "fresh_frame h (h @ [map fst sel]) \<lparr>index_arr = length h, vals = map snd sel\<rparr> sel"
  by (simp add: fresh_frame_def heap_ext_append wf_frame_def rows_def zip_map_fst_snd)

lemma mask_rows_fresh:
  "mask_rows h df keep = (h', f) \<Longrightarrow> fresh_frame h h' f (filter (\<lambda>r. keep (fst r)) (rows h df))"
  using alloc_fresh[of h "filter (\<lambda>r. keep (fst r)) (rows h df)"]
  unfolding mask_rows_def Let_def case_prod_unfold by auto

lemma iloc_last_fresh:
  "iloc_last h df = (h', f) \<Longrightarrow> fresh_frame h h' f (if rows h df = [] then [] else [last (rows h df)])"
  using alloc_fresh[of h "drop (length (rows h df) - 1) (rows h df)"]
  by (auto simp: iloc_last_def Let_def drop_last_row simp del: One_nat_def)

lemma pd_concat_fresh:
  "pd_concat h dfs = (h', f) \<Longrightarrow> fresh_frame h h' f (concat (map (rows h) dfs))"
  using alloc_fresh[of h "concat (map (rows h) dfs)"]
  by (auto simp: pd_concat_def Let_def)

lemma set_index_fresh:
  assumes "wf_frame h df" "length labels = length (rows h df)"
  shows "\<exists>h' f. set_index h df labels = Inr (h', f) \<and>
           fresh_frame h h' f (zip labels (map snd (rows h df)))"
  using assms
  by (simp add: set_index_def fresh_frame_def heap_ext_append wf_frame_def rows_def)

text \<open>Lines 173 to 176 and 182 to 185: the last row of a selection, relabelled.\<close>

lemma relabel_last:
  assumes "wf_frame h sel_df" "iloc_last h sel_df = (h1, ev_df)"
  shows "\<exists>h' f. (if \<not> empty_frame h1 ev_df then set_index h1 ev_df [t] else Inr (h1, ev_df))
                 = Inr (h', f) \<and>
               fresh_frame h h' f (boundary_row t (rows h sel_df))"
proof -
  note f1 = iloc_last_fresh[OF assms(2)]
  show ?thesis
  proof (cases "rows h sel_df = []")
    case True
    then show ?thesis using f1 by (simp add: empty_frame_def fresh_frame_def boundary_row_def)
  next
    case False
    then have r1: "rows h1 ev_df = [last (rows h sel_df)]" "wf_frame h1 ev_df" "heap_ext h h1"
      using f1 by (simp_all add: fresh_frame_def)
    from set_index_fresh[OF r1(2), of "[t]"] r1(1)
    obtain h' f where si: "set_index h1 ev_df [t] = Inr (h', f)"
      "fresh_frame h1 h' f [(t, snd (last (rows h sel_df)))]"
      by auto
    then show ?thesis using r1 False heap_ext_trans[OF r1(3)]
      by (auto simp: empty_frame_def fresh_frame_def boundary_row_def)
  qed
qed

lemma squash_into_window_rows:
  assumes wf: "wf_frame h df"
  shows "\<exists>h' out. squash_into_window h df (s, e) = Inr (h', out) \<and>
           heap_ext h h' \<and> wf_frame h' out \<and>
           rows h' out =
             (let partial = boundary_row s (filter (\<lambda>r. fst r < s) (rows h df)) @
                            filter (\<lambda>r. s \<le> fst r \<and> fst r < e) (rows h df)
              in partial @ boundary_row e (filter (\<lambda>r. fst r \<le> e) partial))"
proof -
  define W where "W = filter (\<lambda>r. s \<le> fst r \<and> fst r < e) (rows h df)"
  define B where "B = filter (\<lambda>r. fst r < s) (rows h df)"
  define P where "P = boundary_row s B @ W"
  define U where "U = filter (\<lambda>r. fst r \<le> e) P"
  obtain h1 window_df where m1: "mask_rows h df (\<lambda>t. s \<le> t \<and> t < e) = (h1, window_df)"
    by force
  have f1: "heap_ext h h1" "wf_frame h1 window_df" "rows h1 window_df = W"
    using mask_rows_fresh[OF m1] by (simp_all add: fresh_frame_def W_def)
  have d1: "wf_frame h1 df" "rows h1 df = rows h df"
    using heap_ext_frame[OF f1(1) wf] by simp_all
  obtain h2 prior_df where m2: "mask_rows h1 df (\<lambda>t. t < s) = (h2, prior_df)"
    by force
  have f2: "heap_ext h1 h2" "wf_frame h2 prior_df" "rows h2 prior_df = B"
    using mask_rows_fresh[OF m2] d1 by (simp_all add: fresh_frame_def B_def)
  obtain h3 ev3 where i3: "iloc_last h2 prior_df = (h3, ev3)"
    by force
  from relabel_last[OF f2(2) i3, of s] f2(3)
  obtain h4 first_event_df where
    r4: "(if \<not> empty_frame h3 ev3 then set_index h3 ev3 [s] else Inr (h3, ev3))
         = Inr (h4, first_event_df)"
    and f4: "heap_ext h2 h4" "wf_frame h4 first_event_df" "rows h4 first_event_df = boundary_row s B"
    by (auto simp: fresh_frame_def)
  have e14: "heap_ext h1 h4" using heap_ext_trans[OF f2(1) f4(1)] .
  have w4: "wf_frame h4 window_df" "rows h4 window_df = W"
    using heap_ext_frame[OF e14 f1(2)] f1(3) by simp_all
  obtain h5 df2 where c5: "pd_concat h4 [first_event_df, window_df] = (h5, df2)"
    by force
  have f5: "heap_ext h4 h5" "wf_frame h5 df2" "rows h5 df2 = P"
    using pd_concat_fresh[OF c5] f4(3) w4(2) by (simp_all add: fresh_frame_def P_def)
  obtain h6 upto_df where m6: "mask_rows h5 df2 (\<lambda>t. t \<le> e) = (h6, upto_df)"
    by force
  have f6: "heap_ext h5 h6" "wf_frame h6 upto_df" "rows h6 upto_df = U"
    using mask_rows_fresh[OF m6] f5(3) by (simp_all add: fresh_frame_def U_def)
  obtain h7 ev7 where i7: "iloc_last h6 upto_df = (h7, ev7)"
    by force
  from relabel_last[OF f6(2) i7, of e] f6(3)
  obtain h8 last_event_df where
    r8: "(if \<not> empty_frame h7 ev7 then set_index h7 ev7 [e] else Inr (h7, ev7))
         = Inr (h8, last_event_df)"
    and f8: "heap_ext h6 h8" "wf_frame h8 last_event_df" "rows h8 last_event_df = boundary_row e U"
    by (auto simp: fresh_frame_def)
  have e58: "heap_ext h5 h8" using heap_ext_trans[OF f6(1) f8(1)] .
  have w8: "wf_frame h8 df2" "rows h8 df2 = P"
    using heap_ext_frame[OF e58 f5(2)] f5(3) by simp_all
  obtain h9 out where c9: "pd_concat h8 [df2, last_event_df] = (h9, out)"
    by force
  have f9: "heap_ext h8 h9" "wf_frame h9 out" "rows h9 out = P @ boundary_row e U"
    using pd_concat_fresh[OF c9] w8(2) f8(3) by (simp_all add: fresh_frame_def)
  have ext: "heap_ext h h9"
    using f1(1) e14 f5(1) e58 f9(1) heap_ext_trans by blast
  have "squash_into_window h df (s, e) = Inr (h9, out)"
    using m1 m2 i3 r4 c5 m6 i7 r8 c9
    by (simp add: squash_into_window_def Let_def)
  then show ?thesis
    using ext f9 by (simp add: Let_def P_def U_def B_def W_def)
qed

lemma map_fst_rows: "wf_frame h f \<Longrightarrow> map fst (rows h f) = h ! index_arr f"
  by (simp add: wf_frame_def rows_def)

lemma map_snd_rows: "wf_frame h f \<Longrightarrow> map snd (rows h f) = vals f"
  by (simp add: wf_frame_def rows_def)

lemma filter_before_split:
  "sorted (map fst rs) \<Longrightarrow> s \<le> e \<Longrightarrow>
   filter (\<lambda>r. fst r < e) rs =
   filter (\<lambda>r. fst r < s) rs @ filter (\<lambda>r. s \<le> fst r \<and> fst r < e) rs"
proof (induction rs)
  case Nil
  show ?case by simp
next
  case (Cons r rs)
  show ?case
  proof (cases "fst r < s")
    case True
    then show ?thesis using Cons by auto
  next
    case False
    then have all: "\<forall>x \<in> set (r # rs). s \<le> fst x" using Cons.prems(1) by auto
    have "filter (\<lambda>r. fst r < s) (r # rs) = []"
      using all by (auto simp: filter_empty_conv)
    moreover have "filter (\<lambda>r. fst r < e) (r # rs) = filter (\<lambda>r. s \<le> fst r \<and> fst r < e) (r # rs)"
      using all by (intro filter_cong) auto
    ultimately show ?thesis by simp
  qed
qed

lemma boundary_row_empty [simp]: "boundary_row t rs = [] \<longleftrightarrow> rs = []"
  by (simp add: boundary_row_def)

lemma squash_rows_end_value:
  fixes rs :: "(time \<times> 'v) list"
  assumes srt: "sorted (map fst rs)" and se: "s \<le> e"
  defines "partial \<equiv> boundary_row s (filter (\<lambda>r. fst r < s) rs) @ filter (\<lambda>r. s \<le> fst r \<and> fst r < e) rs"
  assumes mem: "(e, v) \<in> set (partial @ boundary_row e (filter (\<lambda>r. fst r \<le> e) partial))"
  shows "filter (\<lambda>r. fst r < e) rs \<noteq> [] \<and> v = snd (last (filter (\<lambda>r. fst r < e) rs))"
proof -
  define B where "B = filter (\<lambda>r. fst r < s) rs"
  define W where "W = filter (\<lambda>r. s \<le> fst r \<and> fst r < e) rs"
  have P: "partial = boundary_row s B @ W" by (simp add: partial_def B_def W_def)
  have split: "filter (\<lambda>r. fst r < e) rs = B @ W"
    using filter_before_split[OF srt se] by (simp add: B_def W_def)
  have Wlt: "\<forall>r \<in> set W. fst r < e" by (auto simp: W_def)
  have "\<forall>r \<in> set partial. fst r \<le> e"
    using Wlt se by (auto simp: P boundary_row_def split: if_splits)
  then have U: "filter (\<lambda>r. fst r \<le> e) partial = partial"
    by (auto simp: filter_id_conv)
  have last_partial: "partial \<noteq> [] \<Longrightarrow> B @ W \<noteq> [] \<and> snd (last partial) = snd (last (B @ W))"
    by (auto simp: P boundary_row_def split: if_splits)
  from mem U have "(e, v) \<in> set partial \<or> (e, v) \<in> set (boundary_row e partial)" by auto
  then show ?thesis
  proof
    assume a: "(e, v) \<in> set partial"
    then have "(e, v) \<in> set (boundary_row s B)" using Wlt by (auto simp: P)
    then have "B \<noteq> []" "v = snd (last B)" "s = e" by (auto simp: boundary_row_def split: if_splits)
    moreover have "W = []" using \<open>s = e\<close> by (auto simp: W_def filter_empty_conv)
    ultimately show ?thesis using split by simp
  next
    assume "(e, v) \<in> set (boundary_row e partial)"
    then have "partial \<noteq> []" "v = snd (last partial)" by (auto simp: boundary_row_def split: if_splits)
    then show ?thesis using last_partial split by simp
  qed
qed

lemma squash_rows_coverage:
  fixes rs :: "(time \<times> 'v) list" and s e :: time
  defines "partial \<equiv> boundary_row s (filter (\<lambda>r. fst r < s) rs) @ filter (\<lambda>r. s \<le> fst r \<and> fst r < e) rs"
  defines "out \<equiv> partial @ boundary_row e (filter (\<lambda>r. fst r \<le> e) partial)"
  shows "(\<exists>r \<in> set rs. fst r < s) \<Longrightarrow> s \<in> fst ` set out"
    and "s \<le> e \<Longrightarrow> (\<exists>r \<in> set rs. fst r < e) \<Longrightarrow> e \<in> fst ` set out"
proof -
  define B where "B = filter (\<lambda>r. fst r < s) rs"
  define W where "W = filter (\<lambda>r. s \<le> fst r \<and> fst r < e) rs"
  have P: "partial = boundary_row s B @ W" by (simp add: partial_def B_def W_def)
  {
    assume "\<exists>r \<in> set rs. fst r < s"
    then have "B \<noteq> []" by (auto simp: B_def filter_empty_conv)
    then have "(s, snd (last B)) \<in> set out" by (simp add: out_def P boundary_row_def)
    then show "s \<in> fst ` set out" by force
  }
  {
    assume se: "s \<le> e" and ex: "\<exists>r \<in> set rs. fst r < e"
    then obtain r where r: "r \<in> set rs" "fst r < e" by blast
    have "filter (\<lambda>r. fst r \<le> e) partial \<noteq> []"
    proof (cases "fst r < s")
      case True
      then have "B \<noteq> []" using r by (auto simp: B_def filter_empty_conv)
      then have "(s, snd (last B)) \<in> set partial" by (simp add: P boundary_row_def)
      then show ?thesis using se by (force simp: filter_empty_conv)
    next
      case False
      then have "r \<in> set W" using r by (auto simp: W_def)
      then have "r \<in> set partial" by (simp add: P)
      then show ?thesis using r(2) by (force simp: filter_empty_conv)
    qed
    then have "(e, snd (last (filter (\<lambda>r. fst r \<le> e) partial))) \<in> set out"
      by (simp add: out_def boundary_row_def)
    then show "e \<in> fst ` set out" by force
  }
qed

lemma first_in_window:
  "sorted (map fst rs) \<Longrightarrow> s < e \<Longrightarrow> \<exists>r \<in> set rs. fst r = s \<Longrightarrow>
   \<exists>zs. filter (\<lambda>r. s \<le> fst r \<and> fst r < e) rs = hd (filter (\<lambda>r. fst r = s) rs) # zs"
proof (induction rs)
  case Nil
  then show ?case by simp
next
  case (Cons x xs)
  consider "fst x < s" | "fst x = s" | "s < fst x"
    using linorder_less_linear[of "fst x" s] by blast
  then show ?case
  proof cases
    case 1
    then show ?thesis using Cons by auto
  next
    case 2
    then show ?thesis using Cons.prems by auto
  next
    case 3
    then have "\<forall>r \<in> set (x # xs). s < fst r" using Cons.prems(1) by auto
    then show ?thesis using Cons.prems(3) by auto
  qed
qed

lemma squash_rows_start_pair:
  fixes rs :: "(time \<times> 'v) list" and s e :: time
  defines "partial \<equiv> boundary_row s (filter (\<lambda>r. fst r < s) rs) @ filter (\<lambda>r. s \<le> fst r \<and> fst r < e) rs"
  defines "out \<equiv> partial @ boundary_row e (filter (\<lambda>r. fst r \<le> e) partial)"
  assumes se: "s < e" and before: "\<exists>r \<in> set rs. fst r < s" and at: "\<exists>r \<in> set rs. fst r = s"
  shows "\<exists>ys zs. out = (s, snd (last (filter (\<lambda>r. fst r < s) rs))) # ys @
                        hd (filter (\<lambda>r. fst r = s) rs) # zs \<and>
                 (sorted (map fst rs) \<longrightarrow> ys = [])"
proof -
  define B where "B = filter (\<lambda>r. fst r < s) rs"
  define W where "W = filter (\<lambda>r. s \<le> fst r \<and> fst r < e) rs"
  define orig where "orig = hd (filter (\<lambda>r. fst r = s) rs)"
  define tl_rows where "tl_rows = boundary_row e (filter (\<lambda>r. fst r \<le> e) partial)"
  have "B \<noteq> []" using before by (auto simp: B_def filter_empty_conv)
  then have out: "out = (s, snd (last B)) # W @ tl_rows"
    by (simp add: out_def partial_def B_def W_def tl_rows_def boundary_row_def)
  have "filter (\<lambda>r. fst r = s) rs \<noteq> []" using at by (auto simp: filter_empty_conv)
  then have "orig \<in> set (filter (\<lambda>r. fst r = s) rs)" unfolding orig_def by (rule hd_in_set)
  then have "orig \<in> set W" using se by (auto simp: W_def)
  show ?thesis
  proof (cases "sorted (map fst rs)")
    case True
    from first_in_window[OF True se at] obtain zs where "W = orig # zs"
      by (auto simp: W_def orig_def)
    then have "out = (s, snd (last B)) # [] @ orig # (zs @ tl_rows)" using out by simp
    then show ?thesis unfolding B_def orig_def by blast
  next
    case False
    from \<open>orig \<in> set W\<close> obtain ys zs where "W = ys @ orig # zs" by (auto simp: in_set_conv_decomp)
    then have "out = (s, snd (last B)) # ys @ orig # (zs @ tl_rows)" using out by simp
    then show ?thesis using False unfolding B_def orig_def by blast
  qed
qed

lemma distinct_count_list_le: "distinct arr \<Longrightarrow> count_list arr k \<le> 1"
  by (induction arr) (auto simp: count_list_0_iff)

lemma get_duplicates_distinct: "distinct arr \<Longrightarrow> get_duplicates arr = []"
proof -
  assume "distinct arr"
  then have "filter (\<lambda>k. 1 < count_list arr k) arr = []"
    using distinct_count_list_le[of arr] by (auto simp: filter_empty_conv not_less)
  then show ?thesis by (simp add: get_duplicates_def)
qed

lemma handle_duplicate_index_distinct:
  assumes "distinct (h ! index_arr data)"
  shows "handle_duplicate_index h data max_delta =
           Inr (h, \<lparr>index_arr = index_arr data, vals = vals data\<rparr>)"
  using assms by (simp add: handle_duplicate_index_def get_duplicates_distinct reindex_def)

section \<open>The claims about handle\_duplicate\_index\<close>

text \<open>
  C1 (strictly increasing output). The code does not achieve it. A group of four equal
  timestamps \<open>0\<close> followed by \<open>4\<close>, with \<open>max_delta = 1\<close>: \<open>delta\<close> is \<open>(4 - 0) / 4 = 1\<close>, the
  three later entries of the group receive \<open>1\<close>, \<open>2\<close> and \<open>4\<close>, and the last of them lands on
  the timestamp that follows the group. The returned index is \<open>[0, 1, 2, 4, 4]\<close>.
\<close>

theorem duplicate_survives:
  "handle_duplicate_index [[0, 0, 0, 0, 4]]
       \<lparr>index_arr = 0, vals = [Some (0::nat), Some 1, Some 2, Some 3, Some 4]\<rparr> 1
     = Inr ([[0, 1, 2, 4, 4]], \<lparr>index_arr = 0, vals = [Some 0, Some 1, Some 2, Some 3, Some 4]\<rparr>)"
  by code_simp

text \<open>
  C2 (every output timestamp within \<open>max_delta\<close> of its original). The code does not
  achieve it. Three equal timestamps \<open>6\<close> at the end of the series, with
  \<open>max_delta = 1 / 1000\<close>: \<open>delta\<close> is \<open>max_delta\<close>, and the third entry receives the doubled
  \<open>delta\<close>, twice \<open>max_delta\<close>.
\<close>

theorem adjustment_exceeds_max_delta:
  "handle_duplicate_index [[0, 1, 2, 6, 6, 6]]
       \<lparr>index_arr = 0, vals = [Some (0::nat), Some 1, Some 2, Some 3, Some 4, Some 5]\<rparr> (1 / 1000)
     = Inr ([[0, 1, 2, 6, 6001 / 1000, 6002 / 1000]],
            \<lparr>index_arr = 0, vals = [Some 0, Some 1, Some 2, Some 3, Some 4, Some 5]\<rparr>) \<and>
   (6002 / 1000 - 6 :: time) > 1 / 1000"
  by code_simp

text \<open>
  C3 (no output timestamp beyond the next distinct original timestamp). The code does not
  achieve it. Five equal timestamps \<open>0\<close> followed by \<open>5\<close>, with \<open>max_delta = 1\<close>: \<open>delta\<close> is
  \<open>(5 - 0) / 5 = 1\<close>, and the fifth entry receives \<open>8\<close>, beyond the \<open>5\<close> that follows the
  group.
\<close>

theorem adjusted_exceeds_ceiling:
  "handle_duplicate_index [[0, 0, 0, 0, 0, 5]]
       \<lparr>index_arr = 0, vals = [Some (0::nat), Some 1, Some 2, Some 3, Some 4, Some 5]\<rparr> 1
     = Inr ([[0, 1, 2, 4, 8, 5]],
            \<lparr>index_arr = 0, vals = [Some 0, Some 1, Some 2, Some 3, Some 4, Some 5]\<rparr>) \<and>
   (8 :: time) > 5"
  by code_simp




text \<open>
  C6 (values preserved), as amended. When the values of the series are not the array of
  its index, the returned series carries the values of the input, the same ones in the
  same order, and the array of the values is as it was; this for every series, sorted or
  not, every \<open>max_delta\<close> and every arithmetic.
\<close>

theorem values_kept_when_apart:
  assumes "s_index data < length h" and "s_values data \<noteq> s_index data"
  shows "\<exists>h' out. handle_duplicate_index_fl ar h data max_delta = Inr (h', out) \<and>
           vals out = map Some (h ! s_values data) \<and>
           h' ! s_values data = h ! s_values data"
proof -
  from handle_duplicate_index_fl_total[OF assms(1), of ar max_delta]
  obtain buf where "handle_duplicate_index_fl ar h data max_delta =
            Inr (h[s_index data := buf],
                 \<lparr>index_arr = s_index data,
                    vals = map Some (h[s_index data := buf] ! s_values data)\<rparr>)"
    by blast
  then show ?thesis using assms(2) by simp
qed

text \<open>
  The series of the docstring: the timestamps in one array, the values \<open>0\<close> to \<open>4\<close> in
  another.
\<close>

theorem values_kept_when_apart_witness:
  "s_index \<lparr>s_index = 0, s_values = 1\<rparr> < length [[0 :: time, 1, 1, 6, 7], [0, 1, 2, 3, 4]] \<and>
   s_values \<lparr>s_index = 0, s_values = 1\<rparr> \<noteq> s_index \<lparr>s_index = 0, s_values = 1\<rparr> \<and>
   (\<exists>h' out. handle_duplicate_index_fl exact_arith [[0, 1, 1, 6, 7], [0, 1, 2, 3, 4]]
        \<lparr>s_index = 0, s_values = 1\<rparr> (1 / 1000) = Inr (h', out) \<and>
      vals out = [Some 0, Some 1, Some 2, Some 3, Some 4] \<and>
      h' ! 1 = [0, 1, 2, 3, 4])"
proof -
  have a: "s_index \<lparr>s_index = 0, s_values = 1\<rparr> < length [[0 :: time, 1, 1, 6, 7], [0, 1, 2, 3, 4]]"
    by simp
  have b: "s_values \<lparr>s_index = 0, s_values = 1\<rparr> \<noteq> s_index \<lparr>s_index = 0, s_values = 1\<rparr>"
    by simp
  from values_kept_when_apart[OF a b, of exact_arith "1 / 1000"]
  show ?thesis using a b by simp
qed

text \<open>
  C6 as stated fails for a series built over the array of its own index, as
  \<^verbatim>\<open>pandas.Series(t, index=t)\<close> is: the loop writes the adjusted timestamp into the array, and
  the values returned are \<open>[0, 1, 1.001, 6, 7]\<close> where \<open>[0, 1, 1, 6, 7]\<close> were passed in.
\<close>

theorem shared_values_overwritten:
  "handle_duplicate_index_fl exact_arith [[0, 1, 1, 6, 7]] \<lparr>s_index = 0, s_values = 0\<rparr> (1 / 1000)
     = Inr ([[0, 1, 1001 / 1000, 6, 7]],
            \<lparr>index_arr = 0, vals = [Some 0, Some 1, Some (1001 / 1000), Some 6, Some 7]\<rparr>) \<and>
   vals (series_frame [[0, 1, 1, 6, 7]] \<lparr>s_index = 0, s_values = 0\<rparr>)
     = [Some 0, Some 1, Some 1, Some 6, Some 7]"
  by code_simp

section \<open>The claims about squash\_into\_window\<close>

text \<open>
  C7 (the value at \<open>end\<close>), as amended. The window is half open: an input entry whose
  timestamp is exactly \<open>end\<close> is not selected. For a sorted input and \<open>start \<le> end\<close>, every
  output entry at timestamp \<open>end\<close> carries the value of the last input entry whose timestamp
  is strictly before \<open>end\<close>.
\<close>

theorem squash_into_window_end_value:
  assumes "wf_frame h df" and "sorted (h ! index_arr df)" and "start_time \<le> end_time"
  shows "\<exists>h' out. squash_into_window h df (start_time, end_time) = Inr (h', out) \<and>
           (\<forall>v. (end_time, v) \<in> set (rows h' out) \<longrightarrow>
                filter (\<lambda>r. fst r < end_time) (rows h df) \<noteq> [] \<and>
                v = snd (last (filter (\<lambda>r. fst r < end_time) (rows h df))))"
proof -
  from squash_into_window_rows[OF assms(1), of start_time end_time]
  obtain h' out where res: "squash_into_window h df (start_time, end_time) = Inr (h', out)"
    and rs: "rows h' out =
      (let partial = boundary_row start_time (filter (\<lambda>r. fst r < start_time) (rows h df)) @
                     filter (\<lambda>r. start_time \<le> fst r \<and> fst r < end_time) (rows h df)
       in partial @ boundary_row end_time (filter (\<lambda>r. fst r \<le> end_time) partial))"
    by blast
  have srt: "sorted (map fst (rows h df))"
    using assms(1,2) by (simp add: map_fst_rows)
  have "\<forall>v. (end_time, v) \<in> set (rows h' out) \<longrightarrow>
          filter (\<lambda>r. fst r < end_time) (rows h df) \<noteq> [] \<and>
          v = snd (last (filter (\<lambda>r. fst r < end_time) (rows h df)))"
    using squash_rows_end_value[OF srt assms(3)] unfolding rs Let_def by blast
  then show ?thesis using res by blast
qed

text \<open>
  The input \<open>[(0, 5), (1, 6), (2, 7)]\<close> and the window \<open>(1/2, 2)\<close>: the entry at \<open>2\<close> in the
  output has the value \<open>6\<close> of the entry at \<open>1\<close>.
\<close>

theorem squash_into_window_end_value_witness:
  "wf_frame [[0, 1, 2]] \<lparr>index_arr = 0, vals = [5 :: nat, 6, 7]\<rparr> \<and>
   sorted ([[0 :: time, 1, 2]] ! index_arr \<lparr>index_arr = 0, vals = [5 :: nat, 6, 7]\<rparr>) \<and>
   (1 / 2 :: time) \<le> 2 \<and>
   (\<exists>h' out. squash_into_window [[0, 1, 2]] \<lparr>index_arr = 0, vals = [5 :: nat, 6, 7]\<rparr> (1 / 2, 2)
        = Inr (h', out) \<and>
      (2, 6) \<in> set (rows h' out) \<and>
      6 = snd (last (filter (\<lambda>r. fst r < 2)
                 (rows [[0, 1, 2]] \<lparr>index_arr = 0, vals = [5 :: nat, 6, 7]\<rparr>))))"
proof -
  have a: "wf_frame [[0, 1, 2]] \<lparr>index_arr = 0, vals = [5 :: nat, 6, 7]\<rparr>"
    by (simp add: wf_frame_def)
  have b: "sorted ([[0 :: time, 1, 2]] ! index_arr \<lparr>index_arr = 0, vals = [5 :: nat, 6, 7]\<rparr>)"
    by simp
  have c: "(1 / 2 :: time) \<le> 2" by simp
  have run: "squash_into_window [[0, 1, 2]] \<lparr>index_arr = 0, vals = [5 :: nat, 6, 7]\<rparr> (1 / 2, 2)
     = Inr ([[0, 1, 2], [1], [0], [0], [1 / 2], [1 / 2, 1], [1 / 2, 1], [1], [2], [1 / 2, 1, 2]],
            \<lparr>index_arr = 9, vals = [5, 6, 6]\<rparr>)"
    by code_simp
  have mem: "(2, 6) \<in> set (rows
       [[0, 1, 2], [1], [0], [0], [1 / 2], [1 / 2, 1], [1 / 2, 1], [1], [2], [1 / 2, 1, 2]]
       \<lparr>index_arr = 9, vals = [5 :: nat, 6, 6]\<rparr>)"
    by (simp add: rows_def)
  show ?thesis
    using a b c mem squash_into_window_end_value[OF a b c] unfolding run by blast
qed

text \<open>
  C7 as stated fails on the same input: the last input entry at or before \<open>end = 2\<close> is
  \<open>(2, 7)\<close>, and the output entry at \<open>2\<close> has the value \<open>6\<close>.
\<close>

theorem squash_into_window_end_value_counterexample:
  "squash_into_window [[0, 1, 2]] \<lparr>index_arr = 0, vals = [5 :: nat, 6, 7]\<rparr> (1 / 2, 2)
     = Inr ([[0, 1, 2], [1], [0], [0], [1 / 2], [1 / 2, 1], [1 / 2, 1], [1], [2], [1 / 2, 1, 2]],
            \<lparr>index_arr = 9, vals = [5, 6, 6]\<rparr>) \<and>
   rows [[0, 1, 2], [1], [0], [0], [1 / 2], [1 / 2, 1], [1 / 2, 1], [1], [2], [1 / 2, 1, 2]]
        \<lparr>index_arr = 9, vals = [5 :: nat, 6, 6]\<rparr> = [(1 / 2, 5), (1, 6), (2, 6)] \<and>
   rows [[0, 1, 2]] \<lparr>index_arr = 0, vals = [5 :: nat, 6, 7]\<rparr> = [(0, 5), (1, 6), (2, 7)]"
  by code_simp

text \<open>
  C8 (window coverage), as amended. For \<open>start \<le> end\<close> the output has an entry at \<open>start\<close>
  whenever some input timestamp is strictly before \<open>start\<close>, and an entry at \<open>end\<close> whenever
  some input timestamp is strictly before \<open>end\<close>.
\<close>

theorem squash_into_window_coverage:
  assumes "wf_frame h df" and "start_time \<le> end_time"
  shows "\<exists>h' out. squash_into_window h df (start_time, end_time) = Inr (h', out) \<and>
           ((\<exists>t \<in> set (h ! index_arr df). t < start_time) \<longrightarrow> start_time \<in> set (h' ! index_arr out)) \<and>
           ((\<exists>t \<in> set (h ! index_arr df). t < end_time) \<longrightarrow> end_time \<in> set (h' ! index_arr out))"
proof -
  from squash_into_window_rows[OF assms(1), of start_time end_time]
  obtain h' out where res: "squash_into_window h df (start_time, end_time) = Inr (h', out)"
    and wf': "wf_frame h' out"
    and rs: "rows h' out =
      (let partial = boundary_row start_time (filter (\<lambda>r. fst r < start_time) (rows h df)) @
                     filter (\<lambda>r. start_time \<le> fst r \<and> fst r < end_time) (rows h df)
       in partial @ boundary_row end_time (filter (\<lambda>r. fst r \<le> end_time) partial))"
    by blast
  have inp: "set (h ! index_arr df) = fst ` set (rows h df)"
    using map_fst_rows[OF assms(1)] by (metis set_map)
  have outp: "set (h' ! index_arr out) = fst ` set (rows h' out)"
    using map_fst_rows[OF wf'] by (metis set_map)
  have "(\<exists>t \<in> set (h ! index_arr df). t < start_time) \<longrightarrow> start_time \<in> set (h' ! index_arr out)"
    using squash_rows_coverage(1)[of "rows h df" start_time end_time]
    unfolding inp outp rs Let_def by auto
  moreover
  have "(\<exists>t \<in> set (h ! index_arr df). t < end_time) \<longrightarrow> end_time \<in> set (h' ! index_arr out)"
    using squash_rows_coverage(2)[OF assms(2), of "rows h df"]
    unfolding inp outp rs Let_def by auto
  ultimately show ?thesis using res by blast
qed

text \<open>
  The first test of the repository: timestamps \<open>0\<close> to \<open>4\<close> and the window \<open>(2.1, 2.9)\<close>.
\<close>

theorem squash_into_window_coverage_witness:
  "wf_frame [[0, 1, 2, 3, 4]] \<lparr>index_arr = 0, vals = [5 :: nat, 6, 7, 8, 9]\<rparr> \<and>
   (21 / 10 :: time) \<le> 29 / 10 \<and>
   2 \<in> set ([[0 :: time, 1, 2, 3, 4]] ! index_arr \<lparr>index_arr = 0, vals = [5 :: nat, 6, 7, 8, 9]\<rparr>) \<and>
   (2 :: time) < 21 / 10 \<and> (2 :: time) < 29 / 10 \<and>
   (\<exists>h' out. squash_into_window [[0, 1, 2, 3, 4]] \<lparr>index_arr = 0, vals = [5 :: nat, 6, 7, 8, 9]\<rparr>
          (21 / 10, 29 / 10) = Inr (h', out) \<and>
      21 / 10 \<in> set (h' ! index_arr out) \<and> 29 / 10 \<in> set (h' ! index_arr out))"
proof -
  have a: "wf_frame [[0, 1, 2, 3, 4]] \<lparr>index_arr = 0, vals = [5 :: nat, 6, 7, 8, 9]\<rparr>"
    by (simp add: wf_frame_def)
  have b: "(21 / 10 :: time) \<le> 29 / 10" by simp
  have c: "2 \<in> set ([[0 :: time, 1, 2, 3, 4]] ! index_arr \<lparr>index_arr = 0, vals = [5 :: nat, 6, 7, 8, 9]\<rparr>)"
    by simp
  have d: "(2 :: time) < 21 / 10" "(2 :: time) < 29 / 10" by simp_all
  show ?thesis
    using a b c d squash_into_window_coverage[OF a b] by blast
qed

text \<open>
  C8 as stated fails when the only input entry at or before \<open>end\<close> is at \<open>end\<close> itself:
  the input \<open>[(2, 7)]\<close> and the window \<open>(1, 2)\<close> give an empty output.
\<close>

theorem squash_into_window_coverage_counterexample:
  "squash_into_window [[2]] \<lparr>index_arr = 0, vals = [7 :: nat]\<rparr> (1, 2)
     = Inr ([[2], [], [], [], [], [], [], []], \<lparr>index_arr = 7, vals = []\<rparr>) \<and>
   [[2 :: time], [], [], [], [], [], [], []] ! index_arr \<lparr>index_arr = 7, vals = [] :: nat list\<rparr> = [] \<and>
   2 \<in> set ([[2 :: time]] ! index_arr \<lparr>index_arr = 0, vals = [7 :: nat]\<rparr>) \<and> (1 :: time) \<le> 2"
  by code_simp

text \<open>
  C10 (two entries at \<open>start\<close>), as amended: the window must not be empty,
  \<open>start < end\<close>. Then, when some input timestamp is strictly before \<open>start\<close> and some input
  timestamp is \<open>start\<close>, the output begins with the last entry from before the window
  relabelled \<open>start\<close>, and the first original entry at \<open>start\<close> follows it: immediately when
  the input is sorted, after the rows \<open>ys\<close> of the window that precede it otherwise.
\<close>

theorem squash_into_window_start_pair:
  assumes "wf_frame h df" and "start_time < end_time"
    and "\<exists>t \<in> set (h ! index_arr df). t < start_time"
    and "start_time \<in> set (h ! index_arr df)"
  shows "\<exists>h' out ys zs. squash_into_window h df (start_time, end_time) = Inr (h', out) \<and>
           rows h' out =
             (start_time, snd (last (filter (\<lambda>r. fst r < start_time) (rows h df)))) # ys @
             hd (filter (\<lambda>r. fst r = start_time) (rows h df)) # zs \<and>
           (sorted (h ! index_arr df) \<longrightarrow> ys = [])"
proof -
  from squash_into_window_rows[OF assms(1), of start_time end_time]
  obtain h' out where res: "squash_into_window h df (start_time, end_time) = Inr (h', out)"
    and rs: "rows h' out =
      (let partial = boundary_row start_time (filter (\<lambda>r. fst r < start_time) (rows h df)) @
                     filter (\<lambda>r. start_time \<le> fst r \<and> fst r < end_time) (rows h df)
       in partial @ boundary_row end_time (filter (\<lambda>r. fst r \<le> end_time) partial))"
    by blast
  have inp: "set (h ! index_arr df) = fst ` set (rows h df)"
    using map_fst_rows[OF assms(1)] by (metis set_map)
  have before: "\<exists>r \<in> set (rows h df). fst r < start_time"
    using assms(3) unfolding inp by auto
  have at: "\<exists>r \<in> set (rows h df). fst r = start_time"
    using assms(4) unfolding inp by auto
  from squash_rows_start_pair[OF assms(2) before at]
  obtain ys zs where "rows h' out =
             (start_time, snd (last (filter (\<lambda>r. fst r < start_time) (rows h df)))) # ys @
             hd (filter (\<lambda>r. fst r = start_time) (rows h df)) # zs"
      "sorted (map fst (rows h df)) \<longrightarrow> ys = []"
    unfolding rs Let_def by blast
  then show ?thesis using res map_fst_rows[OF assms(1)] by auto
qed

text \<open>
  The input \<open>[(0, 5), (1, 6), (2, 7)]\<close> and the window \<open>(1, 3)\<close>.
\<close>

theorem squash_into_window_start_pair_witness:
  "wf_frame [[0, 1, 2]] \<lparr>index_arr = 0, vals = [5 :: nat, 6, 7]\<rparr> \<and>
   (1 :: time) < 3 \<and>
   0 \<in> set ([[0 :: time, 1, 2]] ! index_arr \<lparr>index_arr = 0, vals = [5 :: nat, 6, 7]\<rparr>) \<and>
   (0 :: time) < 1 \<and>
   1 \<in> set ([[0 :: time, 1, 2]] ! index_arr \<lparr>index_arr = 0, vals = [5 :: nat, 6, 7]\<rparr>) \<and>
   sorted ([[0 :: time, 1, 2]] ! index_arr \<lparr>index_arr = 0, vals = [5 :: nat, 6, 7]\<rparr>) \<and>
   (\<exists>h' out zs. squash_into_window [[0, 1, 2]] \<lparr>index_arr = 0, vals = [5 :: nat, 6, 7]\<rparr> (1, 3)
        = Inr (h', out) \<and>
      rows h' out = (1, 5) # (1, 6) # zs)"
proof -
  have a: "wf_frame [[0, 1, 2]] \<lparr>index_arr = 0, vals = [5 :: nat, 6, 7]\<rparr>"
    by (simp add: wf_frame_def)
  have b: "(1 :: time) < 3" by simp
  have c1: "0 \<in> set ([[0 :: time, 1, 2]] ! index_arr \<lparr>index_arr = 0, vals = [5 :: nat, 6, 7]\<rparr>)"
    and c2: "(0 :: time) < 1" by simp_all
  have c: "\<exists>t \<in> set ([[0 :: time, 1, 2]] ! index_arr \<lparr>index_arr = 0, vals = [5 :: nat, 6, 7]\<rparr>). t < 1"
    by simp
  have d: "1 \<in> set ([[0 :: time, 1, 2]] ! index_arr \<lparr>index_arr = 0, vals = [5 :: nat, 6, 7]\<rparr>)"
    by simp
  have e: "sorted ([[0 :: time, 1, 2]] ! index_arr \<lparr>index_arr = 0, vals = [5 :: nat, 6, 7]\<rparr>)"
    by simp
  have v1: "snd (last (filter (\<lambda>r. fst r < 1) (rows [[0, 1, 2]] \<lparr>index_arr = 0, vals = [5 :: nat, 6, 7]\<rparr>))) = 5"
    by (simp add: rows_def)
  have v2: "hd (filter (\<lambda>r. fst r = 1) (rows [[0, 1, 2]] \<lparr>index_arr = 0, vals = [5 :: nat, 6, 7]\<rparr>)) = (1, 6)"
    by (simp add: rows_def)
  from squash_into_window_start_pair[OF a b c d] e
  show ?thesis using a b c1 c2 d unfolding v1 v2 by auto
qed

text \<open>
  C10 as stated fails for \<open>start = end\<close>: the input \<open>[(0, 5), (1, 6)]\<close> and the window
  \<open>(1, 1)\<close> give \<open>[(1, 5), (1, 5)]\<close>, the relabelled entry twice, and the original entry
  \<open>(1, 6)\<close> is not in the output.
\<close>

theorem squash_into_window_start_pair_counterexample:
  "squash_into_window [[0, 1]] \<lparr>index_arr = 0, vals = [5 :: nat, 6]\<rparr> (1, 1)
     = Inr ([[0, 1], [], [0], [0], [1], [1], [1], [1], [1], [1, 1]], \<lparr>index_arr = 9, vals = [5, 5]\<rparr>) \<and>
   rows [[0, 1], [], [0], [0], [1], [1], [1], [1], [1], [1, 1]] \<lparr>index_arr = 9, vals = [5 :: nat, 5]\<rparr>
     = [(1, 5), (1, 5)] \<and>
   rows [[0, 1]] \<lparr>index_arr = 0, vals = [5 :: nat, 6]\<rparr> = [(0, 5), (1, 6)]"
  by code_simp

section \<open>The claims about both functions\<close>

text \<open>
  C5 (the caller's data), as amended. \<^verbatim>\<open>squash_into_window\<close> writes to no array that
  existed before the call. \<^verbatim>\<open>handle_duplicate_index\<close> allocates nothing and writes to no array
  other than the one that backs the index of its argument; that array too is left as it
  was when it holds no timestamp twice.
\<close>

theorem caller_data_frame:
  assumes "wf_frame g df" and "index_arr data < length h"
  shows "(\<exists>g' out. squash_into_window g df window = Inr (g', out) \<and> take (length g) g' = g) \<and>
         (\<exists>h' out. handle_duplicate_index h data max_delta = Inr (h', out) \<and>
            length h' = length h \<and>
            (\<forall>a. a \<noteq> index_arr data \<longrightarrow> h' ! a = h ! a) \<and>
            (distinct (h ! index_arr data) \<longrightarrow> h' = h))"
proof -
  have "\<exists>g' out. squash_into_window g df window = Inr (g', out) \<and> take (length g) g' = g"
    using squash_into_window_rows[OF assms(1), of "fst window" "snd window"]
    by (auto simp: heap_ext_def)
  moreover
  have "\<exists>h' out. handle_duplicate_index h data max_delta = Inr (h', out) \<and>
            length h' = length h \<and>
            (\<forall>a. a \<noteq> index_arr data \<longrightarrow> h' ! a = h ! a) \<and>
            (distinct (h ! index_arr data) \<longrightarrow> h' = h)"
  proof (cases "distinct (h ! index_arr data)")
    case True
    then show ?thesis using handle_duplicate_index_distinct[OF True, of max_delta] by simp
  next
    case False
    from handle_duplicate_index_total[OF assms(2), of max_delta]
    obtain buf where "handle_duplicate_index h data max_delta =
            Inr (h[index_arr data := buf], \<lparr>index_arr = index_arr data, vals = vals data\<rparr>)"
      by blast
    then show ?thesis using False by simp
  qed
  ultimately show ?thesis ..
qed

text \<open>
  A store of two arrays, the second one the index of the series.
\<close>

theorem caller_data_frame_witness:
  "wf_frame [[0, 1]] \<lparr>index_arr = 0, vals = [5 :: nat, 6]\<rparr> \<and>
   index_arr \<lparr>index_arr = 1, vals = [Some (0 :: nat), Some 1, Some 2]\<rparr> < length [[9 :: time], [0, 1, 6]] \<and>
   (0 :: nat) \<noteq> index_arr \<lparr>index_arr = 1, vals = [Some (0 :: nat), Some 1, Some 2]\<rparr> \<and>
   distinct ([[9 :: time], [0, 1, 6]] ! index_arr \<lparr>index_arr = 1, vals = [Some (0 :: nat), Some 1, Some 2]\<rparr>) \<and>
   (\<exists>g' out. squash_into_window [[0, 1]] \<lparr>index_arr = 0, vals = [5 :: nat, 6]\<rparr> (1 / 2, 29 / 10)
        = Inr (g', out) \<and> take (length [[0 :: time, 1]]) g' = [[0, 1]]) \<and>
   (\<exists>h' out. handle_duplicate_index [[9], [0, 1, 6]]
        \<lparr>index_arr = 1, vals = [Some (0 :: nat), Some 1, Some 2]\<rparr> (1 / 1000) = Inr (h', out) \<and>
      h' ! 0 = [[9 :: time], [0, 1, 6]] ! 0 \<and> h' = [[9], [0, 1, 6]])"
proof -
  have a: "wf_frame [[0, 1]] \<lparr>index_arr = 0, vals = [5 :: nat, 6]\<rparr>"
    by (simp add: wf_frame_def)
  have b: "index_arr \<lparr>index_arr = 1, vals = [Some (0 :: nat), Some 1, Some 2]\<rparr> < length [[9 :: time], [0, 1, 6]]"
    by simp
  have c: "(0 :: nat) \<noteq> index_arr \<lparr>index_arr = 1, vals = [Some (0 :: nat), Some 1, Some 2]\<rparr>"
    by simp
  have d: "distinct ([[9 :: time], [0, 1, 6]] ! index_arr \<lparr>index_arr = 1, vals = [Some (0 :: nat), Some 1, Some 2]\<rparr>)"
    by simp
  from caller_data_frame[OF a b, of "(1 / 2, 29 / 10)" "1 / 1000"]
  show ?thesis using a b c d by (simp only: simp_thms) blast
qed

text \<open>
  C5 as stated fails on the series of the docstring: after the call the array of the
  caller's index holds the adjusted timestamp.
\<close>

theorem caller_index_overwritten:
  "handle_duplicate_index [[0, 1, 1, 6, 7]]
       \<lparr>index_arr = 0, vals = [Some (0::nat), Some 1, Some 2, Some 3, Some 4]\<rparr> (1 / 1000)
     = Inr ([[0, 1, 1001 / 1000, 6, 7]],
            \<lparr>index_arr = 0, vals = [Some 0, Some 1, Some 2, Some 3, Some 4]\<rparr>) \<and>
   [[0 :: time, 1, 1001 / 1000, 6, 7]] ! index_arr \<lparr>index_arr = 0, vals = [Some (0::nat), Some 1, Some 2, Some 3, Some 4]\<rparr>
     \<noteq> [[0, 1, 1, 6, 7]] ! index_arr \<lparr>index_arr = 0, vals = [Some (0::nat), Some 1, Some 2, Some 3, Some 4]\<rparr>"
  by code_simp

text \<open>
  C9 (errors on invalid input), as amended. Neither function checks its input, and neither
  raises: \<^verbatim>\<open>handle_duplicate_index\<close> returns a series for every series, sorted or not, and
  every \<open>max_delta\<close>, and \<^verbatim>\<open>squash_into_window\<close> returns a frame for every window.
\<close>

theorem no_input_validation:
  assumes "index_arr data < length h" and "wf_frame g df"
  shows "(\<exists>res. handle_duplicate_index h data max_delta = Inr res) \<and>
         (\<exists>res. squash_into_window g df window = Inr res)"
proof -
  have "\<exists>res. handle_duplicate_index h data max_delta = Inr res"
    using handle_duplicate_index_total[OF assms(1), of max_delta] by blast
  moreover have "\<exists>res. squash_into_window g df window = Inr res"
    using squash_into_window_rows[OF assms(2), of "fst window" "snd window"] by auto
  ultimately show ?thesis ..
qed

text \<open>
  An unsorted index with a negative \<open>max_delta\<close>, and a window whose start is after its
  end.
\<close>

theorem no_input_validation_witness:
  "index_arr \<lparr>index_arr = 0, vals = [Some (0::nat), Some 1, Some 2]\<rparr> < length [[2 :: time, 1, 1]] \<and>
   wf_frame [[0, 1]] \<lparr>index_arr = 0, vals = [5 :: nat, 6]\<rparr> \<and>
   (\<exists>res. handle_duplicate_index [[2, 1, 1]] \<lparr>index_arr = 0, vals = [Some (0::nat), Some 1, Some 2]\<rparr> (- 1) = Inr res) \<and>
   (\<exists>res. squash_into_window [[0, 1]] \<lparr>index_arr = 0, vals = [5 :: nat, 6]\<rparr> (3, 2) = Inr res)"
proof -
  have a: "index_arr \<lparr>index_arr = 0, vals = [Some (0::nat), Some 1, Some 2]\<rparr> < length [[2 :: time, 1, 1]]"
    by simp
  have b: "wf_frame [[0, 1]] \<lparr>index_arr = 0, vals = [5 :: nat, 6]\<rparr>"
    by (simp add: wf_frame_def)
  show ?thesis
    using a b no_input_validation[OF a b, of "- 1" "(3, 2)"] by blast
qed

text \<open>
  C9 as stated fails: an unsorted series, a \<open>max_delta\<close> of zero and a window with
  \<open>start > end\<close> are each answered with a result.
\<close>

theorem invalid_input_accepted:
  "handle_duplicate_index [[3, 1, 2]] \<lparr>index_arr = 0, vals = [Some (0::nat), Some 1, Some 2]\<rparr> 1
     = Inr ([[3, 1, 2]], \<lparr>index_arr = 0, vals = [Some 0, Some 1, Some 2]\<rparr>) \<and>
   handle_duplicate_index [[0, 1, 1]] \<lparr>index_arr = 0, vals = [Some (0::nat), Some 1, Some 2]\<rparr> 0
     = Inr ([[0, 1, 1]], \<lparr>index_arr = 0, vals = [Some 0, Some 1, Some 2]\<rparr>) \<and>
   squash_into_window [[0, 1]] \<lparr>index_arr = 0, vals = [5 :: nat, 6]\<rparr> (3, 2)
     = Inr ([[0, 1], [], [0, 1], [1], [3], [3], [], [], [3]], \<lparr>index_arr = 8, vals = [6]\<rparr>)"
  by code_simp

end
